theory Spec2Isabelle
  imports
    Main
    "HOL-Library.AList"
    "HOL-Library.Char_ord"
    "HOL-Library.List_Lexorder"
    "HOL-Library.Product_Lexorder"
    "HOL-Library.Multiset"
begin

section \<open>The syscall history report of \<^verbatim>\<open>scripts/syscalls_history.py\<close>\<close>

text \<open>
  The script loads JSON syscall tables, sorts them by kernel version, checks that the
  version tags are pairwise different and that all tables are for one arch/bits/abi
  combination, and prints for each table its number of syscalls and what changed since
  the previous table.

  Strings are \<^typ>\<open>string\<close>: the model covers ASCII text, where Python's code points and
  HOL's characters agree. Python's unbounded integers are \<^typ>\<open>int\<close>.
\<close>

subsection \<open>Data\<close>

text \<open>
  The fields of a loaded JSON table that the script reads:
  \<^verbatim>\<open>table['kernel']['version']\<close>, \<^verbatim>\<open>table['kernel']['architecture']['name']\<close>,
  \<^verbatim>\<open>table['kernel']['architecture']['bits']\<close>, \<^verbatim>\<open>table['kernel']['abi']['name']\<close>
  and the \<^verbatim>\<open>number\<close> and \<^verbatim>\<open>name\<close> of every element of \<^verbatim>\<open>table['syscalls']\<close>, in
  the order of the JSON array.
\<close>

record table =
  version :: string
  arch_name :: string
  arch_bits :: int
  abi_name :: string
  syscalls :: "(int \<times> string) list"

text \<open>
  How a run ends. \<^verbatim>\<open>sys.exit(msg)\<close> writes \<^verbatim>\<open>msg\<close> to standard error and exits with
  status 1; an exception that nothing catches ends the run with a traceback and status 1.
\<close>

datatype py_error = IndexError | AssertionError | ValueError | LoadError

datatype exit = Returned | SysExit string | Raised py_error

fun exit_status :: "exit \<Rightarrow> nat" where
  "exit_status Returned = 0"
| "exit_status (SysExit msg) = 1"
| "exit_status (Raised e) = 1"

text \<open>
  An element of a version tuple: an integer or \<^verbatim>\<open>float('inf')\<close>. Python compares the
  two kinds by value, and every integer is below infinity.
\<close>

datatype pynum = PyInt int | PyInf

instantiation pynum :: linorder
begin

fun less_eq_pynum :: "pynum \<Rightarrow> pynum \<Rightarrow> bool" where
  "less_eq_pynum (PyInt a) (PyInt b) = (a \<le> b)"
| "less_eq_pynum (PyInt a) PyInf = True"
| "less_eq_pynum PyInf (PyInt b) = False"
| "less_eq_pynum PyInf PyInf = True"

definition less_pynum :: "pynum \<Rightarrow> pynum \<Rightarrow> bool" where
  "less_pynum x y = (x \<le> y \<and> \<not> y \<le> x)"

instance
proof
  fix x y z :: pynum
  show "(x < y) = (x \<le> y \<and> \<not> y \<le> x)"
    by (simp add: less_pynum_def)
  show "x \<le> x"
    by (cases x) simp_all
  show "x \<le> y \<Longrightarrow> y \<le> z \<Longrightarrow> x \<le> z"
    by (cases x; cases y; cases z) simp_all
  show "x \<le> y \<Longrightarrow> y \<le> x \<Longrightarrow> x = y"
    by (cases x; cases y) simp_all
  show "x \<le> y \<or> y \<le> x"
    by (cases x; cases y) auto
qed

end

subsection \<open>Text helpers of the Python library\<close>

definition newline :: string where
  "newline = [CHR 0x0A]"

definition ESC :: char where
  "ESC = CHR 0x1B"

definition digit_char :: "nat \<Rightarrow> char" where
  "digit_char d = ''0123456789abcdef'' ! d"

fun digits_of :: "nat \<Rightarrow> nat \<Rightarrow> string" where
  "digits_of b n =
     (if b < 2 \<or> n < b then [digit_char n] else digits_of b (n div b) @ [digit_char (n mod b)])"

text \<open>\<^verbatim>\<open>str(i)\<close> and the format \<^verbatim>\<open>{i}\<close> of an integer.\<close>

definition str_int :: "int \<Rightarrow> string" where
  "str_int i = (if i < 0 then ''-'' @ digits_of 10 (nat (- i)) else digits_of 10 (nat i))"

text \<open>The format \<^verbatim>\<open>{i:#x}\<close> of an integer.\<close>

definition hex_int :: "int \<Rightarrow> string" where
  "hex_int i = (if i < 0 then ''-0x'' @ digits_of 16 (nat (- i)) else ''0x'' @ digits_of 16 (nat i))"

text \<open>\<^verbatim>\<open>s.ljust(w)\<close>: spaces are added after the text, and a longer text is not cut.\<close>

definition ljust :: "nat \<Rightarrow> string \<Rightarrow> string" where
  "ljust w s = s @ replicate (w - length s) CHR '' ''"

text \<open>\<^verbatim>\<open>s.split(d)\<close> for a one-character separator: always at least one piece.\<close>

fun split_on :: "char \<Rightarrow> string \<Rightarrow> string list" where
  "split_on d [] = [[]]"
| "split_on d (c # cs) =
     (if c = d then [] # split_on d cs
      else (case split_on d cs of [] \<Rightarrow> [[c]] | p # ps \<Rightarrow> (c # p) # ps))"

text \<open>
  \<^verbatim>\<open>int(s)\<close> on text whose characters are the code points 0 to 255: white space around
  the number is dropped, one sign is allowed, and the digits may be separated by single
  underscores. \<open>None\<close> is the \<^verbatim>\<open>ValueError\<close>. The white space of \<^verbatim>\<open>int\<close> is the space
  and the characters 0x09 to 0x0D, and of the code points from 0x80 on, which \<^verbatim>\<open>int\<close>
  turns into spaces before it reads the number, 0x85 and 0xA0. The separators 0x1C to
  0x1F, which \<^verbatim>\<open>str.isspace\<close> accepts, are refused. The interpreter's limit on the number
  of digits, a setting that can be switched off, is not modelled.
\<close>

definition is_space :: "char \<Rightarrow> bool" where
  "is_space c \<longleftrightarrow>
     c \<in> set [CHR '' '', CHR 0x09, CHR 0x0A, CHR 0x0B, CHR 0x0C, CHR 0x0D, CHR 0x85, CHR 0xA0]"

definition digit_val :: "char \<Rightarrow> nat option" where
  "digit_val c =
     (if CHR ''0'' \<le> c \<and> c \<le> CHR ''9'' then Some (of_char c - 48) else None)"

fun digits_acc :: "nat \<Rightarrow> string \<Rightarrow> nat option" where
  "digits_acc acc [] = Some acc"
| "digits_acc acc [c] =
     (case digit_val c of None \<Rightarrow> None | Some v \<Rightarrow> Some (10 * acc + v))"
| "digits_acc acc (c # d # ds) =
     (if c = CHR ''_'' then
        (case digit_val d of None \<Rightarrow> None | Some v \<Rightarrow> digits_acc (10 * acc + v) ds)
      else
        (case digit_val c of None \<Rightarrow> None | Some v \<Rightarrow> digits_acc (10 * acc + v) (d # ds)))"

definition py_digits :: "string \<Rightarrow> nat option" where
  "py_digits s =
     (case s of [] \<Rightarrow> None
      | c # cs \<Rightarrow> (case digit_val c of None \<Rightarrow> None | Some v \<Rightarrow> digits_acc v cs))"

definition strip :: "string \<Rightarrow> string" where
  "strip s = rev (dropWhile is_space (rev (dropWhile is_space s)))"

definition py_int :: "string \<Rightarrow> int option" where
  "py_int s =
     (case strip s of [] \<Rightarrow> None
      | c # cs \<Rightarrow>
          if c = CHR ''-'' then map_option (\<lambda>n. - int n) (py_digits cs)
          else if c = CHR ''+'' then map_option int (py_digits cs)
          else map_option int (py_digits (c # cs)))"

subsection \<open>\<^verbatim>\<open>tag_to_tuple\<close> and \<^verbatim>\<open>arch_bits_abi\<close>\<close>

definition tag_to_tuple :: "string \<Rightarrow> py_error + pynum list" where
  "tag_to_tuple tag =
     (if tag = ''latest'' then Inr [PyInf]
      else (case tag of [] \<Rightarrow> Inl IndexError
            | c # rest \<Rightarrow>
                if c \<noteq> CHR ''v'' then Inl AssertionError
                else (case those (map py_int (split_on CHR ''.'' rest)) of
                        None \<Rightarrow> Inl ValueError
                      | Some ns \<Rightarrow> Inr (map PyInt ns))))"

definition arch_bits_abi :: "table \<Rightarrow> string" where
  "arch_bits_abi t = arch_name t @ ''/'' @ str_int (arch_bits t) @ ''/'' @ abi_name t"

subsection \<open>The colours\<close>

record colors =
  RED :: string
  GREEN :: string
  BLUE :: string
  RESET :: string

definition term_colors :: "bool \<Rightarrow> colors" where
  "term_colors tty =
     (if tty then
        \<lparr>RED = ESC # ''[91m'', GREEN = ESC # ''[92m'', BLUE = ESC # ''[94m'',
         RESET = ESC # ''[0m''\<rparr>
      else \<lparr>RED = [], GREEN = [], BLUE = [], RESET = []\<rparr>)"

definition PLUS :: "colors \<Rightarrow> string" where
  "PLUS c = GREEN c @ ''+''"

definition MINUS :: "colors \<Rightarrow> string" where
  "MINUS c = RED c @ ''-''"

definition RENAME :: "colors \<Rightarrow> string" where
  "RENAME c = BLUE c @ ''R''"

subsection \<open>Dictionaries and their item views\<close>

text \<open>
  A Python dictionary is an association list with pairwise different keys, in insertion
  order: storing under a key that is present replaces the value in place
  (\<^const>\<open>AList.update\<close>). \<^verbatim>\<open>dict(pairs)\<close> stores the pairs from first to last.
\<close>

type_synonym ('k, 'v) dict = "('k \<times> 'v) list"

definition dict_of :: "('k \<times> 'v) list \<Rightarrow> ('k, 'v) dict" where
  "dict_of ps = fold (\<lambda>(k, v) d. AList.update k v d) ps []"

text \<open>
  \<^verbatim>\<open>a.items() - b.items()\<close>: the items of \<open>a\<close> that are no items of \<open>b\<close>. Python gives a
  set, and the loops over it run in an order the language does not fix; the model lists
  it in the order of \<open>a\<close>. Lemma \<open>classify_order_irrelevant\<close> below shows that the
  report does not depend on that order.
\<close>

definition items_minus :: "('k, 'v) dict \<Rightarrow> ('k, 'v) dict \<Rightarrow> ('k \<times> 'v) list" where
  "items_minus a b = filter (\<lambda>p. p \<notin> set b) a"

subsection \<open>The diff of two consecutive tables\<close>

text \<open>An entry of \<^verbatim>\<open>diff\<close>: the number, and the pair of the operation symbol and the text.\<close>

type_synonym diff = "(int, string \<times> string) dict"

text \<open>The loop \<^verbatim>\<open>for num, name in removed\<close>.\<close>

definition removed_loop :: "colors \<Rightarrow> (int \<times> string) list \<Rightarrow> diff \<Rightarrow> diff" where
  "removed_loop c removed d = fold (\<lambda>(num, name) d. AList.update num (MINUS c, name) d) removed d"

text \<open>
  One round of the loop \<^verbatim>\<open>for num, name in added\<close>, on the state
  \<open>(n_added, n_removed, n_renamed, diff)\<close>.
\<close>

fun added_step :: "colors \<Rightarrow> int \<times> string \<Rightarrow> int \<times> int \<times> int \<times> diff \<Rightarrow> int \<times> int \<times> int \<times> diff" where
  "added_step c (num, name) (n_added, n_removed, n_renamed, d) =
     (case map_of d num of
        Some (op, old) \<Rightarrow>
          (n_added - 1, n_removed - 1, n_renamed + 1,
           AList.update num (RENAME c, old @ '' -> '' @ name) d)
      | None \<Rightarrow> (n_added, n_removed, n_renamed, AList.update num (PLUS c, name) d))"

definition added_loop :: "colors \<Rightarrow> (int \<times> string) list \<Rightarrow> int \<times> int \<times> int \<times> diff \<Rightarrow> int \<times> int \<times> int \<times> diff" where
  "added_loop c added st = fold (added_step c) added st"

text \<open>Lines 87 to 102: the counts and the dictionary \<^verbatim>\<open>diff\<close>.\<close>

definition classify :: "colors \<Rightarrow> (int \<times> string) list \<Rightarrow> (int \<times> string) list \<Rightarrow> int \<times> int \<times> int \<times> diff" where
  "classify c removed added =
     added_loop c added (int (length added), int (length removed), 0, removed_loop c removed [])"

subsection \<open>The report\<close>

text \<open>Lines 104 to 108: the summary in parentheses, which ends the table's count line.\<close>

definition summary :: "colors \<Rightarrow> int \<Rightarrow> int \<Rightarrow> int \<Rightarrow> string" where
  "summary c n_added n_removed n_renamed =
     '' ('' @
     (if n_added \<noteq> 0 then PLUS c @ str_int n_added @ RESET c else []) @
     (if n_removed \<noteq> 0 then
        (if n_added \<noteq> 0 then ''/'' else []) @ MINUS c @ str_int n_removed @ RESET c
      else []) @
     (if n_renamed \<noteq> 0 then
        (if n_added \<noteq> 0 \<or> n_removed \<noteq> 0 then '', '' else []) @
        BLUE c @ str_int n_renamed @ '' renamed'' @ RESET c
      else []) @
     '')'' @ newline"

text \<open>Line 111: the line of one entry of \<^verbatim>\<open>diff\<close>.\<close>

fun diff_line :: "colors \<Rightarrow> int \<times> string \<times> string \<Rightarrow> string" where
  "diff_line c (num, op, name) =
     ''       '' @ op @ '' '' @ str_int num @ '' ('' @ hex_int num @ '') '' @ name @ RESET c
     @ newline"

text \<open>
  \<^verbatim>\<open>sorted(diff.items())\<close> compares the tuples \<open>(num, (op, name))\<close>: first the numbers,
  then the strings, character by character. That is the lexicographic order of the
  products and lists, so the call is \<^const>\<open>sort\<close>.
\<close>

definition diff_lines :: "colors \<Rightarrow> diff \<Rightarrow> string list" where
  "diff_lines c d = map (diff_line c) (sort d)"

text \<open>Line 74: the start of a table's line.\<close>

definition count_line :: "string \<Rightarrow> (int, string) dict \<Rightarrow> string" where
  "count_line tag sc = ljust 5 tag @ '':'' @ '' '' @ str_int (int (length sc)) @ '' '' @ ''syscalls''"

text \<open>Lines 72 to 111: what one round of the loop over the tables prints.\<close>

definition table_report :: "colors \<Rightarrow> string \<Rightarrow> (int, string) dict option \<Rightarrow> (int, string) dict \<Rightarrow> string" where
  "table_report c tag prev_syscalls sc =
     count_line tag sc @
     (case prev_syscalls of
        None \<Rightarrow> newline
      | Some prev \<Rightarrow>
          (let added = items_minus sc prev; removed = items_minus prev sc in
           if added = [] \<and> removed = [] then newline
           else (case classify c removed added of
                   (n_added, n_removed, n_renamed, d) \<Rightarrow>
                     summary c n_added n_removed n_renamed @ concat (diff_lines c d))))"

definition incompatible_msg :: "string \<Rightarrow> string \<Rightarrow> string" where
  "incompatible_msg prev_arch arch =
     ''Incompatible architectures: '' @ prev_arch @ '' and '' @ arch @ ''.'' @ newline @
     ''Provided tables should all be for the same arch/bits/abi combination!''"

text \<open>
  The loop over the sorted tables (lines 62 to 111), on the state \<open>(arch, syscalls)\<close>;
  the result is what was printed and how the loop ended.
\<close>

fun report_loop :: "colors \<Rightarrow> string option \<Rightarrow> (int, string) dict option \<Rightarrow> table list \<Rightarrow> string \<times> exit" where
  "report_loop c arch sc [] = ([], Returned)"
| "report_loop c arch sc (t # ts) =
     (let prev_arch = arch; prev_syscalls = sc; arch' = arch_bits_abi t in
      if prev_arch \<noteq> None \<and> Some arch' \<noteq> prev_arch
      then ([], SysExit (incompatible_msg (the prev_arch) arch'))
      else
        (let sc' = dict_of (syscalls t);
             line = table_report c (version t) prev_syscalls sc';
             (out, e) = report_loop c (Some arch') (Some sc') ts
         in (line @ out, e)))"

subsection \<open>Loading and sorting\<close>

text \<open>
  The file system is a parameter: \<open>glob\<close> gives the paths a pattern matches, and \<open>load\<close>
  opens and parses one path (\<open>Inl\<close> when \<^verbatim>\<open>open\<close> or \<^verbatim>\<open>json.load\<close> raises).
\<close>

fun load_all :: "(string \<Rightarrow> py_error + table) \<Rightarrow> string list \<Rightarrow> py_error + table list" where
  "load_all load [] = Inr []"
| "load_all load (f # fs) =
     (case load f of
        Inl e \<Rightarrow> Inl e
      | Inr t \<Rightarrow> (case load_all load fs of Inl e \<Rightarrow> Inl e | Inr ts \<Rightarrow> Inr (t # ts)))"

text \<open>The keys of \<^verbatim>\<open>tables.sort\<close>, computed from first to last; the first failure is raised.\<close>

fun sort_keys :: "table list \<Rightarrow> py_error + pynum list list" where
  "sort_keys [] = Inr []"
| "sort_keys (t # ts) =
     (case tag_to_tuple (version t) of
        Inl e \<Rightarrow> Inl e
      | Inr k \<Rightarrow> (case sort_keys ts of Inl e \<Rightarrow> Inl e | Inr ks \<Rightarrow> Inr (k # ks)))"

text \<open>
  \<^verbatim>\<open>tables.sort(key=...)\<close>: a stable sort that compares the keys only, tuples by the
  lexicographic order.
\<close>

definition sort_tables :: "table list \<Rightarrow> py_error + table list" where
  "sort_tables ts =
     (case sort_keys ts of
        Inl e \<Rightarrow> Inl e
      | Inr ks \<Rightarrow> Inr (map snd (sort_key fst (zip ks ts))))"

definition usage_msg :: "string \<Rightarrow> string" where
  "usage_msg prog = ''Usage: '' @ prog @ '' table1.json table2.json ...''"

definition duplicate_msg :: string where
  "duplicate_msg = ''Multiple tables for the same kernel version!''"

text \<open>
  \<^verbatim>\<open>main(argv)\<close>, given the file system and whether standard output is a terminal: the
  text on standard output and how the run ended.
\<close>

definition main :: "(string \<Rightarrow> string list) \<Rightarrow> (string \<Rightarrow> py_error + table) \<Rightarrow> bool \<Rightarrow> string list \<Rightarrow> string \<times> exit" where
  "main glob load tty argv =
     (if length argv < 3 then
        (case argv of
           [] \<Rightarrow> ([], Raised IndexError)
         | prog # args \<Rightarrow> ([], SysExit (usage_msg prog)))
      else
        (case load_all load (concat (map glob (tl argv))) of
           Inl e \<Rightarrow> ([], Raised e)
         | Inr tables \<Rightarrow>
             (case sort_tables tables of
                Inl e \<Rightarrow> ([], Raised e)
              | Inr sorted_tables \<Rightarrow>
                  if card (set (map version sorted_tables)) \<noteq> length sorted_tables
                  then ([], SysExit duplicate_msg)
                  else report_loop (term_colors tty) None None sorted_tables)))"

subsection \<open>Notions for the statements\<close>

text \<open>
  The sort key of a table, for a tag that \<^verbatim>\<open>tag_to_tuple\<close> accepts, and the tags it
  accepts: \<^verbatim>\<open>latest\<close>, and \<^verbatim>\<open>v\<close> followed by integers that dots separate.
\<close>

definition version_key :: "table \<Rightarrow> pynum list" where
  "version_key t = (case tag_to_tuple (version t) of Inr k \<Rightarrow> k | Inl e \<Rightarrow> [])"


definition well_formed_tag :: "string \<Rightarrow> bool" where
  "well_formed_tag tag = (case tag_to_tuple tag of Inr k \<Rightarrow> True | Inl e \<Rightarrow> False)"

text \<open>
  What the rounds of the loop print, one after the other, for tables that all pass the
  check of the architecture, starting with \<open>sc\<close> as the previous syscalls.
\<close>

fun reports :: "colors \<Rightarrow> (int, string) dict option \<Rightarrow> table list \<Rightarrow> string" where
  "reports c sc [] = []"
| "reports c sc (t # ts) =
     table_report c (version t) sc (dict_of (syscalls t)) @
     reports c (Some (dict_of (syscalls t))) ts"

subsection \<open>The diff entries as the specification describes them\<close>

text \<open>
  The specification's diff entry of a number, from the names the number has in the
  removed and in the added items: removed, added, or renamed from the old name to the
  new one. The entry is the pair of the operation symbol and the text of the line.
\<close>

definition diff_entry :: "colors \<Rightarrow> (int \<rightharpoonup> string) \<Rightarrow> (int \<rightharpoonup> string) \<Rightarrow> int \<Rightarrow> (string \<times> string) option" where
  "diff_entry c rem add num =
     (case (rem num, add num) of
        (None, None) \<Rightarrow> None
      | (Some old, None) \<Rightarrow> Some (MINUS c, old)
      | (None, Some new) \<Rightarrow> Some (PLUS c, new)
      | (Some old, Some new) \<Rightarrow> Some (RENAME c, old @ '' -> '' @ new))"

subsection \<open>The tag column as the specification describes it\<close>

text \<open>
  The specification's padding of the version tag: spaces are put before the text until
  it is \<open>w\<close> characters long.
\<close>

definition left_padded :: "nat \<Rightarrow> string \<Rightarrow> string" where
  "left_padded w s = replicate (w - length s) CHR '' '' @ s"

subsection \<open>Text without the escape character\<close>

definition no_escape :: "string \<Rightarrow> bool" where
  "no_escape s \<longleftrightarrow> ESC \<notin> set s"

subsection \<open>A small file system for the examples\<close>

text \<open>
  Two tables for x86/64/x64: \<^verbatim>\<open>a.json\<close> is v5.10 with the syscalls read and write,
  \<^verbatim>\<open>b.json\<close> is v5.11 with open in addition. The pattern \<^verbatim>\<open>*.json\<close> matches both,
  and each name matches itself.
\<close>

definition ex_table :: "string \<Rightarrow> (int \<times> string) list \<Rightarrow> table" where
  "ex_table tag sc =
     \<lparr>version = tag, arch_name = ''x86'', arch_bits = 64, abi_name = ''x64'', syscalls = sc\<rparr>"

definition ex_glob :: "string \<Rightarrow> string list" where
  "ex_glob p =
     (if p = ''*.json'' then [''a.json'', ''b.json'']
      else if p = ''a.json'' \<or> p = ''b.json'' then [p]
      else [])"

definition ex_load :: "string \<Rightarrow> py_error + table" where
  "ex_load f =
     (if f = ''a.json'' then Inr (ex_table ''v5.10'' [(0, ''read''), (1, ''write'')])
      else if f = ''b.json'' then Inr (ex_table ''v5.11'' [(0, ''read''), (1, ''write''), (2, ''open'')])
      else Inl LoadError)"

text \<open>
  Two syscall arrays: number 5 changes its name, number 7 goes and number 8 comes.
\<close>

definition ex_old :: "(int \<times> string) list" where
  "ex_old = [(0, ''read''), (5, ''foo''), (7, ''old'')]"

definition ex_new :: "(int \<times> string) list" where
  "ex_new = [(0, ''read''), (5, ''bar''), (8, ''new'')]"

text \<open>
  A file system where every name matches itself, with three ways to fill the files:
  every file is a table tagged \<^verbatim>\<open>5.11\<close>, without the leading \<^verbatim>\<open>v\<close>; every file is a
  table tagged \<^verbatim>\<open>v5.11\<close>; \<^verbatim>\<open>a.json\<close> is a v5.10 table for x86 and every other file a
  v5.11 table for arm64.
\<close>

definition self_glob :: "string \<Rightarrow> string list" where
  "self_glob p = [p]"

definition untagged_load :: "string \<Rightarrow> py_error + table" where
  "untagged_load f = Inr (ex_table ''5.11'' [(0, ''read'')])"

definition same_tag_load :: "string \<Rightarrow> py_error + table" where
  "same_tag_load f = Inr (ex_table ''v5.11'' [(0, ''read'')])"

definition mixed_load :: "string \<Rightarrow> py_error + table" where
  "mixed_load f =
     (if f = ''a.json'' then Inr (ex_table ''v5.10'' [(0, ''read'')])
      else Inr ((ex_table ''v5.11'' [(0, ''read'')])\<lparr>arch_name := ''arm64''\<rparr>))"

text \<open>
  A syscall array where number 1 occurs twice, and a way to fill the files where the
  second table names syscall 0 with a text that starts with a colour code.
\<close>

definition ex_dup :: "(int \<times> string) list" where
  "ex_dup = [(1, ''exit''), (2, ''fork''), (1, ''quit'')]"

definition esc_load :: "string \<Rightarrow> py_error + table" where
  "esc_load f =
     (if f = ''a.json'' then Inr (ex_table ''v5.10'' [(0, ''read'')])
      else Inr (ex_table ''v5.11'' [(0, ESC # ''[91mread'')]))"

section \<open>Properties\<close>

subsection \<open>The loop over the tables, one round at a time\<close>

lemma report_loop_step:
  "a = None \<or> a = Some (arch_bits_abi t) \<Longrightarrow>
   report_loop c a s (t # ts) =
     (table_report c (version t) s (dict_of (syscalls t)) @
        fst (report_loop c (Some (arch_bits_abi t)) (Some (dict_of (syscalls t))) ts),
      snd (report_loop c (Some (arch_bits_abi t)) (Some (dict_of (syscalls t))) ts))"
  by (auto simp: Let_def split: prod.splits)

lemma report_loop_mismatch:
  "a = Some p \<Longrightarrow> p \<noteq> arch_bits_abi t \<Longrightarrow>
   report_loop c a s (t # ts) = ([], SysExit (incompatible_msg p (arch_bits_abi t)))"
  by (auto simp: Let_def)

lemma report_loop_SysExit:
  "snd (report_loop c a s ts) = SysExit m \<Longrightarrow> \<exists>p q. m = incompatible_msg p q"
proof (induction ts arbitrary: a s)
  case Nil
  then show ?case by simp
next
  case (Cons t ts)
  show ?case
  proof (cases "a = None \<or> a = Some (arch_bits_abi t)")
    case True
    from Cons.prems
    have "snd (report_loop c (Some (arch_bits_abi t)) (Some (dict_of (syscalls t))) ts) = SysExit m"
      by (simp add: report_loop_step [OF True] del: report_loop.simps)
    then show ?thesis by (rule Cons.IH)
  next
    case False
    then obtain p where p: "a = Some p" "p \<noteq> arch_bits_abi t"
      by (cases a) auto
    from Cons.prems show ?thesis
      by (auto simp: report_loop_mismatch [OF p] simp del: report_loop.simps)
  qed
qed

lemma usage_msg_not_incompatible: "usage_msg prog \<noteq> incompatible_msg p q"
  by (simp add: usage_msg_def incompatible_msg_def)

lemma usage_msg_not_duplicate: "usage_msg prog \<noteq> duplicate_msg"
  by (simp add: usage_msg_def duplicate_msg_def)

subsection \<open>Dictionaries\<close>

lemma fold_update_distinct:
  "distinct (map fst d) \<Longrightarrow>
   distinct (map fst (fold (\<lambda>(k, v). AList.update k (g k v)) ps d))"
  by (induction ps arbitrary: d) (auto simp: distinct_update)

lemma fold_update_keys:
  "fst ` set (fold (\<lambda>(k, v). AList.update k (g k v)) ps d) = fst ` set d \<union> fst ` set ps"
proof (induction ps arbitrary: d)
  case Nil
  show ?case by simp
next
  case (Cons p ps)
  obtain k v where p: "p = (k, v)" by (cases p)
  have "fst ` set (fold (\<lambda>(k, v). AList.update k (g k v)) (p # ps) d) =
        fst ` set (AList.update k (g k v) d) \<union> fst ` set ps"
    using Cons.IH [of "AList.update k (g k v) d"] by (simp add: p)
  also have "\<dots> = ({k} \<union> fst ` set d) \<union> fst ` set ps"
    by (simp only: dom_update)
  finally show ?case by (simp add: p)
qed

lemma fold_update_map_of:
  "map_of (fold (\<lambda>(k, v). AList.update k (g k v)) ps d) =
     map_of d ++ map_of (map (\<lambda>(k, v). (k, g k v)) (rev ps))"
  by (induction ps arbitrary: d) (auto simp: update_conv')

lemma map_of_rev_distinct: "distinct (map fst ps) \<Longrightarrow> map_of (rev ps) = map_of ps"
  by (rule map_of_inject_set [THEN iffD2]) (simp_all add: rev_map [symmetric])

lemma dict_of_distinct: "distinct (map fst (dict_of ps))"
  unfolding dict_of_def using fold_update_distinct [of "[]" "\<lambda>k v. v" ps] by simp

lemma dict_of_keys: "fst ` set (dict_of ps) = fst ` set ps"
  unfolding dict_of_def using fold_update_keys [of "\<lambda>k v. v" ps "[]"] by simp

lemma dict_of_map_of: "map_of (dict_of ps) = map_of (rev ps)"
  unfolding dict_of_def using fold_update_map_of [of "\<lambda>k v. v" ps "[]"] by simp

lemma dict_of_length: "length (dict_of ps) = card (fst ` set ps)"
proof -
  have "length (dict_of ps) = length (map fst (dict_of ps))" by simp
  also have "\<dots> = card (set (map fst (dict_of ps)))"
    using dict_of_distinct [of ps] by (simp only: distinct_card)
  also have "\<dots> = card (fst ` set ps)"
    by (simp add: dict_of_keys)
  finally show ?thesis .
qed

lemma dict_of_set: "set (dict_of ps) = {(k, v). map_of (rev ps) k = Some v}"
  using dict_of_distinct [of ps] by (auto simp: dict_of_map_of [symmetric])


lemma items_minus_set: "set (items_minus a b) = set a - set b"
  by (auto simp: items_minus_def)

lemma items_minus_distinct: "distinct (map fst a) \<Longrightarrow> distinct (map fst (items_minus a b))"
  by (simp add: items_minus_def distinct_map_filter)

subsection \<open>The two loops that fill \<^verbatim>\<open>diff\<close>\<close>

lemma removed_loop_distinct: "distinct (map fst (removed_loop c removed []))"
  unfolding removed_loop_def
  using fold_update_distinct [of "[]" "\<lambda>k v. (MINUS c, v)" removed] by simp

lemma removed_loop_keys: "fst ` set (removed_loop c removed []) = fst ` set removed"
  unfolding removed_loop_def
  using fold_update_keys [of "\<lambda>k v. (MINUS c, v)" removed "[]"] by simp

lemma removed_loop_map_of:
  assumes "distinct (map fst removed)"
  shows "map_of (removed_loop c removed []) num = map_option (Pair (MINUS c)) (map_of removed num)"
proof -
  have "map_of (removed_loop c removed []) =
        map_of (map (\<lambda>(k, v). (k, (MINUS c, v))) (rev removed))"
    unfolding removed_loop_def
    using fold_update_map_of [of "\<lambda>k v. (MINUS c, v)" removed "[]"] by simp
  also have "\<dots> = map_option (Pair (MINUS c)) \<circ> map_of (rev removed)"
    by (rule map_of_map)
  finally show ?thesis
    using assms by (simp add: map_of_rev_distinct)
qed

lemma added_loop_result:
  assumes "distinct (map fst added)"
  shows "\<exists>d'. added_loop c added (na, nr, nn, d) =
            (na - int (length (filter (\<lambda>p. map_of d (fst p) \<noteq> None) added)),
             nr - int (length (filter (\<lambda>p. map_of d (fst p) \<noteq> None) added)),
             nn + int (length (filter (\<lambda>p. map_of d (fst p) \<noteq> None) added)), d') \<and>
          (distinct (map fst d) \<longrightarrow> distinct (map fst d')) \<and>
          fst ` set d' = fst ` set d \<union> fst ` set added \<and>
          (\<forall>k. map_of d' k =
             (case map_of added k of
                None \<Rightarrow> map_of d k
              | Some new \<Rightarrow>
                  (case map_of d k of
                     None \<Rightarrow> Some (PLUS c, new)
                   | Some e \<Rightarrow> Some (RENAME c, snd e @ '' -> '' @ new))))"
  using assms
proof (induction added arbitrary: na nr nn d)
  case Nil
  show ?case by (simp add: added_loop_def)
next
  case (Cons p rest)
  obtain num name where p: "p = (num, name)" by (cases p)
  from Cons.prems have nin: "num \<notin> fst ` set rest" and dr: "distinct (map fst rest)"
    by (auto simp: p)
  define d1 where "d1 =
    (case map_of d num of
       None \<Rightarrow> AList.update num (PLUS c, name) d
     | Some e \<Rightarrow> AList.update num (RENAME c, snd e @ '' -> '' @ name) d)"
  define b :: int where "b = (if map_of d num = None then 0 else 1)"
  define h where "h = int (length (filter (\<lambda>p. map_of d (fst p) \<noteq> None) rest))"
  have step: "added_step c p (na, nr, nn, d) = (na - b, nr - b, nn + b, d1)"
    by (auto simp: p b_def d1_def split: option.splits)
  have m1: "map_of d1 k = map_of d k" if "k \<noteq> num" for k
    using that by (auto simp: d1_def update_conv' split: option.splits)
  have m2: "map_of d1 num =
      (case map_of d num of None \<Rightarrow> Some (PLUS c, name)
       | Some e \<Rightarrow> Some (RENAME c, snd e @ '' -> '' @ name))"
    by (auto simp: d1_def update_conv' split: option.splits)
  have k1: "fst ` set d1 = {num} \<union> fst ` set d"
    by (auto simp: d1_def dom_update split: option.splits)
  have dd1: "distinct (map fst d) \<Longrightarrow> distinct (map fst d1)"
    by (auto simp: d1_def distinct_update split: option.splits)
  have filt: "filter (\<lambda>p. map_of d1 (fst p) \<noteq> None) rest =
              filter (\<lambda>p. map_of d (fst p) \<noteq> None) rest"
  proof (rule filter_cong [OF refl])
    fix q assume "q \<in> set rest"
    with nin have "fst q \<noteq> num" by force
    then show "(map_of d1 (fst q) \<noteq> None) = (map_of d (fst q) \<noteq> None)"
      by (simp add: m1)
  qed
  from Cons.IH [OF dr, of "na - b" "nr - b" "nn + b" d1] obtain d' where
    run: "added_loop c rest (na - b, nr - b, nn + b, d1) = (na - b - h, nr - b - h, nn + b + h, d')"
    and dis: "distinct (map fst d1) \<longrightarrow> distinct (map fst d')"
    and keys: "fst ` set d' = fst ` set d1 \<union> fst ` set rest"
    and mp: "\<And>k. map_of d' k =
             (case map_of rest k of
                None \<Rightarrow> map_of d1 k
              | Some new \<Rightarrow>
                  (case map_of d1 k of
                     None \<Rightarrow> Some (PLUS c, new)
                   | Some e \<Rightarrow> Some (RENAME c, snd e @ '' -> '' @ new)))"
    unfolding filt h_def by blast
  have cnt: "int (length (filter (\<lambda>p. map_of d (fst p) \<noteq> None) (p # rest))) = b + h"
    by (simp add: p b_def h_def)
  have whole: "added_loop c (p # rest) (na, nr, nn, d) = (na - (b + h), nr - (b + h), nn + (b + h), d')"
    using run step by (simp add: added_loop_def algebra_simps)
  have rest_none: "map_of rest num = None"
    using nin by (simp add: map_of_eq_None_iff)
  have mp': "map_of d' k =
             (case map_of (p # rest) k of
                None \<Rightarrow> map_of d k
              | Some new \<Rightarrow>
                  (case map_of d k of
                     None \<Rightarrow> Some (PLUS c, new)
                   | Some e \<Rightarrow> Some (RENAME c, snd e @ '' -> '' @ new)))" for k
  proof (cases "k = num")
    case True
    then show ?thesis by (simp add: mp rest_none m2 p)
  next
    case False
    then show ?thesis by (simp add: mp m1 p split: option.splits)
  qed
  show ?case
    unfolding cnt whole
    using dis dd1 keys k1 mp' by (intro exI [of _ d']) (auto simp: p)
qed


lemma hits_card:
  assumes "distinct (map fst added)"
  shows "length (filter (\<lambda>p. map_of d (fst p) \<noteq> None) added) = card (fst ` set d \<inter> fst ` set added)"
proof -
  have "length (filter (\<lambda>p. map_of d (fst p) \<noteq> None) added) =
        length (filter (\<lambda>k. map_of d k \<noteq> None) (map fst added))"
    by (simp add: filter_map comp_def)
  also have "\<dots> = card ({k. map_of d k \<noteq> None} \<inter> set (map fst added))"
    using assms by (rule distinct_length_filter)
  also have "{k. map_of d k \<noteq> None} = fst ` set d"
    by (auto simp: map_of_eq_None_iff)
  finally show ?thesis by simp
qed

lemma classify_result:
  assumes "distinct (map fst removed)" and "distinct (map fst added)"
  shows "\<exists>d. classify c removed added =
            (int (length added) - int (card (fst ` set removed \<inter> fst ` set added)),
             int (length removed) - int (card (fst ` set removed \<inter> fst ` set added)),
             int (card (fst ` set removed \<inter> fst ` set added)), d) \<and>
          distinct (map fst d) \<and>
          fst ` set d = fst ` set removed \<union> fst ` set added \<and>
          (\<forall>k. map_of d k = diff_entry c (map_of removed) (map_of added) k)"
proof -
  let ?d0 = "removed_loop c removed []"
  from added_loop_result [OF assms(2), of c "int (length added)" "int (length removed)" 0 ?d0]
  obtain d where
    run: "added_loop c added (int (length added), int (length removed), 0, ?d0) =
            (int (length added) - int (length (filter (\<lambda>p. map_of ?d0 (fst p) \<noteq> None) added)),
             int (length removed) - int (length (filter (\<lambda>p. map_of ?d0 (fst p) \<noteq> None) added)),
             0 + int (length (filter (\<lambda>p. map_of ?d0 (fst p) \<noteq> None) added)), d)"
    and dis: "distinct (map fst ?d0) \<longrightarrow> distinct (map fst d)"
    and keys: "fst ` set d = fst ` set ?d0 \<union> fst ` set added"
    and mp: "\<And>k. map_of d k =
             (case map_of added k of
                None \<Rightarrow> map_of ?d0 k
              | Some new \<Rightarrow>
                  (case map_of ?d0 k of
                     None \<Rightarrow> Some (PLUS c, new)
                   | Some e \<Rightarrow> Some (RENAME c, snd e @ '' -> '' @ new)))"
    by blast
  have h: "length (filter (\<lambda>p. map_of ?d0 (fst p) \<noteq> None) added) =
           card (fst ` set removed \<inter> fst ` set added)"
    using hits_card [OF assms(2), of ?d0] by (simp add: removed_loop_keys)
  have "map_of d k = diff_entry c (map_of removed) (map_of added) k" for k
    by (simp add: mp removed_loop_map_of [OF assms(1)] diff_entry_def split: option.splits)
  with run dis keys show ?thesis
    unfolding h classify_def
    by (intro exI [of _ d]) (simp add: removed_loop_distinct removed_loop_keys)
qed


subsection \<open>The order of the loops over the two sets does not matter\<close>



lemma table_report_unchanged:
  "items_minus sc prev = [] \<Longrightarrow> items_minus prev sc = [] \<Longrightarrow>
   table_report c tag (Some prev) sc = count_line tag sc @ newline"
  by (simp add: table_report_def Let_def)

lemma table_report_changed:
  assumes "\<not> (items_minus sc prev = [] \<and> items_minus prev sc = [])"
    and "classify c (items_minus prev sc) (items_minus sc prev) = (n_added, n_removed, n_renamed, d)"
  shows "table_report c tag (Some prev) sc =
           count_line tag sc @ summary c n_added n_removed n_renamed @ concat (diff_lines c d)"
proof -
  have "(if items_minus sc prev = [] \<and> items_minus prev sc = [] then newline
         else case classify c (items_minus prev sc) (items_minus sc prev) of
              (n_added, n_removed, n_renamed, d) \<Rightarrow>
                summary c n_added n_removed n_renamed @ concat (diff_lines c d)) =
        summary c n_added n_removed n_renamed @ concat (diff_lines c d)"
    by (simp only: assms if_False split_conv)
  then show ?thesis
    by (simp add: table_report_def Let_def)
qed


subsection \<open>Sorting the tables\<close>

lemma sort_keys_Inr:
  "sort_keys ts = Inr ks \<Longrightarrow> ks = map version_key ts \<and> (\<forall>t\<in>set ts. well_formed_tag (version t))"
  by (induction ts arbitrary: ks)
    (auto simp: version_key_def well_formed_tag_def split: sum.splits)

lemma sort_keys_well_formed:
  "\<forall>t\<in>set ts. well_formed_tag (version t) \<Longrightarrow> sort_keys ts = Inr (map version_key ts)"
  by (induction ts) (auto simp: version_key_def well_formed_tag_def split: sum.splits)

lemma insort_key_decorated:
  "insort_key fst (f x, x) (map (\<lambda>x. (f x, x)) xs) = map (\<lambda>x. (f x, x)) (insort_key f x xs)"
  by (induction xs) simp_all

lemma sort_key_decorated:
  "sort_key fst (map (\<lambda>x. (f x, x)) xs) = map (\<lambda>x. (f x, x)) (sort_key f xs)"
  by (induction xs) (simp_all add: insort_key_decorated)

lemma zip_map_self: "zip (map f xs) xs = map (\<lambda>x. (f x, x)) xs"
  by (induction xs) simp_all

lemma sort_tables_Inr:
  assumes "sort_tables ts = Inr ss"
  shows "ss = sort_key version_key ts"
proof -
  from assms obtain ks where ks: "sort_keys ts = Inr ks"
    and ss: "ss = map snd (sort_key fst (zip ks ts))"
    by (auto simp: sort_tables_def split: sum.splits)
  from sort_keys_Inr [OF ks] have "ks = map version_key ts" by simp
  with ss show ?thesis
    by (simp add: zip_map_self sort_key_decorated comp_def)
qed

lemma sort_tables_well_formed:
  "\<forall>t\<in>set ts. well_formed_tag (version t) \<Longrightarrow> sort_tables ts = Inr (sort_key version_key ts)"
  by (simp add: sort_tables_def sort_keys_well_formed zip_map_self sort_key_decorated comp_def)

lemma sort_tables_Inl:
  "sort_tables ts = Inl e \<Longrightarrow> \<exists>t\<in>set ts. \<not> well_formed_tag (version t)"
  using sort_tables_well_formed [of ts] by auto

lemma duplicate_check:
  "card (set (map version (sort_key version_key ts))) \<noteq> length (sort_key version_key ts) \<longleftrightarrow>
   \<not> distinct (map version ts)"
proof -
  have "mset (map version (sort_key version_key ts)) = mset (map version ts)"
    by simp
  then have "distinct (map version (sort_key version_key ts)) = distinct (map version ts)"
    by (rule mset_eq_imp_distinct_iff)
  moreover have "length (sort_key version_key ts) = length (map version (sort_key version_key ts))"
    by simp
  ultimately show ?thesis
    by (metis card_distinct distinct_card)
qed

lemma main_loaded:
  assumes "3 \<le> length argv"
    and "load_all load (concat (map glob (tl argv))) = Inr tables"
  shows "main glob load tty argv =
           (case sort_tables tables of
              Inl e \<Rightarrow> ([], Raised e)
            | Inr ss \<Rightarrow>
                if distinct (map version tables)
                then report_loop (term_colors tty) None None ss
                else ([], SysExit duplicate_msg))"
proof (cases "sort_tables tables")
  case (Inl e)
  with assms show ?thesis by (simp add: main_def)
next
  case (Inr ss)
  from sort_tables_Inr [OF Inr] have ss: "ss = sort_key version_key tables" .
  from assms Inr show ?thesis
    using duplicate_check [of tables] by (simp add: main_def ss)
qed

subsection \<open>The loop on compatible tables, and at the first table that is not\<close>

lemma report_loop_compatible:
  "\<forall>u\<in>set ts. arch_bits_abi u = x \<Longrightarrow> a = None \<or> a = Some x \<Longrightarrow>
   report_loop c a s ts = (reports c s ts, Returned)"
proof (induction ts arbitrary: a s)
  case Nil
  show ?case by simp
next
  case (Cons t ts)
  from Cons.prems have x: "arch_bits_abi t = x" and rest: "\<forall>u\<in>set ts. arch_bits_abi u = x"
    by simp_all
  from Cons.prems(2) x have ok: "a = None \<or> a = Some (arch_bits_abi t)" by simp
  have "report_loop c (Some (arch_bits_abi t)) (Some (dict_of (syscalls t))) ts =
        (reports c (Some (dict_of (syscalls t))) ts, Returned)"
    by (rule Cons.IH [OF rest]) (simp add: x)
  then show ?case
    by (simp add: report_loop_step [OF ok] del: report_loop.simps)
qed

lemma report_loop_refused:
  "\<forall>u\<in>set pre. arch_bits_abi u = x \<Longrightarrow> a = None \<or> a = Some x \<Longrightarrow>
   pre \<noteq> [] \<or> a = Some x \<Longrightarrow> arch_bits_abi t \<noteq> x \<Longrightarrow>
   report_loop c a s (pre @ t # post) =
     (reports c s pre, SysExit (incompatible_msg x (arch_bits_abi t)))"
proof (induction pre arbitrary: a s)
  case Nil
  then have "a = Some x" by simp
  from report_loop_mismatch [OF this] Nil.prems(4) show ?case
    by (simp del: report_loop.simps)
next
  case (Cons u pre)
  from Cons.prems have x: "arch_bits_abi u = x" and rest: "\<forall>v\<in>set pre. arch_bits_abi v = x"
    by simp_all
  from Cons.prems(2) x have ok: "a = None \<or> a = Some (arch_bits_abi u)" by simp
  have "report_loop c (Some (arch_bits_abi u)) (Some (dict_of (syscalls u))) (pre @ t # post) =
        (reports c (Some (dict_of (syscalls u))) pre,
         SysExit (incompatible_msg x (arch_bits_abi t)))"
    by (rule Cons.IH [OF rest _ _ Cons.prems(4)]) (simp_all add: x)
  then show ?case
    using report_loop_step [OF ok, of c s "pre @ t # post"]
    by (simp del: report_loop.simps)
qed

subsection \<open>The order of the version tuples\<close>




lemma PyInt_less [simp]: "PyInt a < PyInt b \<longleftrightarrow> a < b"
  by (auto simp: less_pynum_def)






lemma sort_keys_first_error:
  "\<forall>u\<in>set pre. well_formed_tag (version u) \<Longrightarrow> tag_to_tuple (version t) = Inl e \<Longrightarrow>
   sort_keys (pre @ t # post) = Inl e"
  by (induction pre) (auto simp: well_formed_tag_def split: sum.splits)

subsection \<open>The line of a table\<close>

lemma dict_of_last_wins:
  assumes "n \<notin> fst ` set ys"
  shows "map_of (dict_of (xs @ (n, nm) # ys)) n = Some nm"
proof -
  from assms have "map_of (rev ys) n = None"
    by (simp add: map_of_eq_None_iff)
  then show ?thesis
    by (simp add: dict_of_map_of map_add_def)
qed

lemma table_report_starts:
  "\<exists>rest. table_report c tag prev (dict_of raw) =
          tag @ replicate (5 - length tag) CHR '' '' @ '': '' @
          str_int (int (card (fst ` set raw))) @ '' syscalls'' @ rest"
  by (simp add: table_report_def count_line_def ljust_def dict_of_length)

subsection \<open>Text without the escape character\<close>

lemma no_escape_simps [simp]:
  "no_escape []"
  "no_escape (c # s) \<longleftrightarrow> c \<noteq> ESC \<and> no_escape s"
  "no_escape (s @ s') \<longleftrightarrow> no_escape s \<and> no_escape s'"
  by (auto simp: no_escape_def)

lemma no_escape_replicate [simp]: "no_escape (replicate n CHR '' '')"
  by (induction n) (simp_all add: ESC_def)

lemma no_escape_concat: "(\<forall>s\<in>set ss. no_escape s) \<Longrightarrow> no_escape (concat ss)"
  by (induction ss) simp_all

lemma digit_char_plain:
  assumes "d < 16"
  shows "digit_char d \<noteq> ESC"
proof
  assume e: "digit_char d = ESC"
  have "d < length ''0123456789abcdef''"
    using assms by simp
  then have "digit_char d \<in> set ''0123456789abcdef''"
    unfolding digit_char_def by (rule nth_mem)
  then have "ESC \<in> set ''0123456789abcdef''"
    unfolding e .
  then show False
    by (simp add: ESC_def)
qed

lemma no_escape_digits_of:
  assumes b: "2 \<le> b" "b \<le> 16"
  shows "no_escape (digits_of b n)"
proof (induction n rule: less_induct)
  case (less n)
  show ?case
  proof (cases "n < b")
    case True
    with b have "n < 16" by simp
    then have "digit_char n \<noteq> ESC" by (rule digit_char_plain)
    moreover from True have "digits_of b n = [digit_char n]"
      by (subst digits_of.simps) simp
    ultimately show ?thesis by simp
  next
    case False
    with b have "n div b < n" by simp
    then have ih: "no_escape (digits_of b (n div b))" by (rule less.IH)
    from b have "n mod b < b" by simp
    with b have "n mod b < 16" by linarith
    then have m: "digit_char (n mod b) \<noteq> ESC" by (rule digit_char_plain)
    from False b have "digits_of b n = digits_of b (n div b) @ [digit_char (n mod b)]"
      by (subst digits_of.simps) simp
    with ih m show ?thesis by simp
  qed
qed

lemma no_escape_str_int [simp]: "no_escape (str_int i)"
  by (simp add: str_int_def no_escape_digits_of ESC_def del: digits_of.simps)

lemma no_escape_hex_int [simp]: "no_escape (hex_int i)"
  by (simp add: hex_int_def no_escape_digits_of ESC_def del: digits_of.simps)

lemma plain_colors [simp]:
  "RED (term_colors False) = []" "GREEN (term_colors False) = []"
  "BLUE (term_colors False) = []" "RESET (term_colors False) = []"
  "PLUS (term_colors False) = ''+''" "MINUS (term_colors False) = ''-''"
  "RENAME (term_colors False) = ''R''"
  by (simp_all add: term_colors_def PLUS_def MINUS_def RENAME_def)

lemma no_escape_newline [simp]: "no_escape newline"
  by (simp add: newline_def ESC_def)

lemma no_escape_summary: "no_escape (summary (term_colors False) a r n)"
  by (simp add: summary_def ESC_def)

lemma no_escape_count_line: "no_escape tag \<Longrightarrow> no_escape (count_line tag sc)"
  by (simp add: count_line_def ljust_def ESC_def)

lemma no_escape_diff_line:
  "no_escape op \<Longrightarrow> no_escape name \<Longrightarrow> no_escape (diff_line (term_colors False) (num, op, name))"
  by (simp add: ESC_def)


lemma dict_of_subset: "set (dict_of xs) \<subseteq> set xs"
proof
  fix p assume "p \<in> set (dict_of xs)"
  then have "map_of (rev xs) (fst p) = Some (snd p)"
    by (simp add: dict_of_set case_prod_beta)
  then have "(fst p, snd p) \<in> set (rev xs)" by (rule map_of_SomeD)
  then show "p \<in> set xs" by simp
qed

lemma no_escape_classify:
  assumes dr: "distinct (map fst removed)" and da: "distinct (map fst added)"
    and cr: "\<forall>p\<in>set removed. no_escape (snd p)"
    and ca: "\<forall>p\<in>set added. no_escape (snd p)"
    and run: "classify (term_colors False) removed added = (n_added, n_removed, n_renamed, d)"
  shows "\<forall>e\<in>set d. no_escape (fst (snd e)) \<and> no_escape (snd (snd e))"
proof
  fix e assume e: "e \<in> set d"
  obtain k sym tx where kv: "e = (k, sym, tx)" by (cases e)
  from classify_result [OF dr da, of "term_colors False"] run
  have dd: "distinct (map fst d)"
    and mp: "\<And>k. map_of d k = diff_entry (term_colors False) (map_of removed) (map_of added) k"
    by auto
  from e dd have "map_of d k = Some (sym, tx)" by (simp add: kv)
  then have de: "diff_entry (term_colors False) (map_of removed) (map_of added) k = Some (sym, tx)"
    by (simp add: mp)
  have old: "no_escape v" if "map_of removed k = Some v" for v
    using map_of_SomeD [OF that] cr by auto
  have new: "no_escape v" if "map_of added k = Some v" for v
    using map_of_SomeD [OF that] ca by auto
  from de old new have "no_escape sym \<and> no_escape tx"
    by (auto simp: diff_entry_def ESC_def split: option.splits)
  then show "no_escape (fst (snd e)) \<and> no_escape (snd (snd e))"
    by (simp add: kv)
qed

lemma no_escape_table_report:
  assumes tag: "no_escape tag"
    and sc: "distinct (map fst sc)" "\<forall>p\<in>set sc. no_escape (snd p)"
    and prev: "\<forall>d. prev_sc = Some d \<longrightarrow> distinct (map fst d) \<and> (\<forall>p\<in>set d. no_escape (snd p))"
  shows "no_escape (table_report (term_colors False) tag prev_sc sc)"
proof (cases prev_sc)
  case None
  with tag show ?thesis
    by (simp add: table_report_def no_escape_count_line)
next
  case (Some d)
  with prev have dd: "distinct (map fst d)" and cd: "\<forall>p\<in>set d. no_escape (snd p)"
    by simp_all
  let ?A = "items_minus sc d" and ?R = "items_minus d sc"
  show ?thesis
  proof (cases "?A = [] \<and> ?R = []")
    case True
    with tag show ?thesis
      by (simp add: Some table_report_unchanged no_escape_count_line)
  next
    case False
    obtain na nr nn df where run: "classify (term_colors False) ?R ?A = (na, nr, nn, df)"
      by (cases "classify (term_colors False) ?R ?A") auto
    have "\<forall>e\<in>set df. no_escape (fst (snd e)) \<and> no_escape (snd (snd e))"
      using _ _ _ _ run
    proof (rule no_escape_classify)
      show "distinct (map fst ?R)" using dd by (rule items_minus_distinct)
      show "distinct (map fst ?A)" using sc(1) by (rule items_minus_distinct)
      show "\<forall>p\<in>set ?R. no_escape (snd p)" using cd by (simp add: items_minus_set)
      show "\<forall>p\<in>set ?A. no_escape (snd p)" using sc(2) by (simp add: items_minus_set)
    qed
    then have "\<forall>s\<in>set (diff_lines (term_colors False) df). no_escape s"
      by (auto simp: diff_lines_def ESC_def)
    then have "no_escape (concat (diff_lines (term_colors False) df))"
      by (rule no_escape_concat)
    with tag show ?thesis
      unfolding Some table_report_changed [OF False run]
      by (simp add: no_escape_count_line no_escape_summary)
  qed
qed

lemma no_escape_report_loop:
  assumes "\<forall>t\<in>set ts. no_escape (version t) \<and> (\<forall>p\<in>set (syscalls t). no_escape (snd p))"
    and "\<forall>d. s = Some d \<longrightarrow> distinct (map fst d) \<and> (\<forall>p\<in>set d. no_escape (snd p))"
  shows "no_escape (fst (report_loop (term_colors False) a s ts))"
  using assms
proof (induction ts arbitrary: a s)
  case Nil
  show ?case by simp
next
  case (Cons t ts)
  show ?case
  proof (cases "a = None \<or> a = Some (arch_bits_abi t)")
    case False
    then obtain p where p: "a = Some p" "p \<noteq> arch_bits_abi t"
      by (cases a) auto
    show ?thesis
      by (simp add: report_loop_mismatch [OF p] del: report_loop.simps)
  next
    case True
    from Cons.prems(1) have tag: "no_escape (version t)"
      and names: "\<forall>p\<in>set (syscalls t). no_escape (snd p)"
      and rest: "\<forall>u\<in>set ts. no_escape (version u) \<and> (\<forall>p\<in>set (syscalls u). no_escape (snd p))"
      by simp_all
    from names dict_of_subset [of "syscalls t"]
    have cd: "\<forall>p\<in>set (dict_of (syscalls t)). no_escape (snd p)" by blast
    have line: "no_escape (table_report (term_colors False) (version t) s (dict_of (syscalls t)))"
      using tag dict_of_distinct cd Cons.prems(2) by (rule no_escape_table_report)
    have more: "no_escape (fst (report_loop (term_colors False) (Some (arch_bits_abi t))
                  (Some (dict_of (syscalls t))) ts))"
      using rest by (rule Cons.IH) (simp add: dict_of_distinct cd)
    from line more show ?thesis
      by (simp add: report_loop_step [OF True] del: report_loop.simps)
  qed
qed

lemma main_output_cases:
  "fst (main glob load tty argv) = [] \<or>
   (\<exists>tables. load_all load (concat (map glob (tl argv))) = Inr tables \<and>
      main glob load tty argv =
        report_loop (term_colors tty) None None (sort_key version_key tables))"
proof (cases "length argv < 3")
  case True
  then show ?thesis by (simp add: main_def split: list.splits)
next
  case False
  then have len: "3 \<le> length argv" by simp
  show ?thesis
  proof (cases "load_all load (concat (map glob (tl argv)))")
    case (Inl e)
    with False show ?thesis by (simp add: main_def)
  next
    case (Inr tables)
    show ?thesis
    proof (cases "sort_tables tables")
      case (Inl e)
      then show ?thesis by (simp add: main_loaded [OF len Inr])
    next
      case ss: (Inr ss)
      from sort_tables_Inr [OF ss] have "ss = sort_key version_key tables" .
      with ss Inr show ?thesis
        by (simp add: main_loaded [OF len Inr])
    qed
  qed
qed

subsection \<open>The usage error\<close>

text \<open>
  Claim C1, as amended. The usage error depends on the number of command-line arguments,
  not on the number of files the patterns match: with fewer than two arguments after the
  program name the run ends with the usage message on standard error, status 1 and
  nothing on standard output; with two or more arguments no usage error is raised,
  whatever the patterns match.
\<close>

theorem usage_error_by_argument_count:
  "(length argv < 3 \<and> argv \<noteq> [] \<longrightarrow>
      main glob load tty argv = ([], SysExit (usage_msg (hd argv)))) \<and>
   (3 \<le> length argv \<longrightarrow> snd (main glob load tty argv) \<noteq> SysExit (usage_msg prog))"
proof (intro conjI impI)
  assume "length argv < 3 \<and> argv \<noteq> []"
  then show "main glob load tty argv = ([], SysExit (usage_msg (hd argv)))"
    by (cases argv) (simp_all add: main_def)
next
  assume len: "3 \<le> length argv"
  show "snd (main glob load tty argv) \<noteq> SysExit (usage_msg prog)"
  proof
    assume eq: "snd (main glob load tty argv) = SysExit (usage_msg prog)"
    from len have nl: "\<not> length argv < 3" by simp
    show False
    proof (cases "load_all load (concat (map glob (tl argv)))")
      case (Inl e)
      with eq nl show False by (simp add: main_def)
    next
      case (Inr tables)
      show False
      proof (cases "sort_tables tables")
        case (Inl e)
        with eq nl Inr show False by (simp add: main_def)
      next
        case st: (Inr sorted_tables)
        show False
        proof (cases "card (set (map version sorted_tables)) \<noteq> length sorted_tables")
          case True
          with eq nl Inr st have "duplicate_msg = usage_msg prog"
            by (simp add: main_def)
          then show False using usage_msg_not_duplicate [of prog] by simp
        next
          case False
          with eq nl Inr st
          have "snd (report_loop (term_colors tty) None None sorted_tables) = SysExit (usage_msg prog)"
            by (simp add: main_def)
          from report_loop_SysExit [OF this] show False
            using usage_msg_not_incompatible by blast
        qed
      qed
    qed
  qed
qed

theorem usage_error_by_argument_count_witness:
  "main ex_glob ex_load False [''prog'', ''a.json''] = ([], SysExit (usage_msg ''prog'')) \<and>
   snd (main ex_glob ex_load False [''prog'', ''a.json'', ''b.json'']) \<noteq> SysExit (usage_msg ''prog'')"
  using usage_error_by_argument_count [of "[''prog'', ''a.json'']" ex_glob ex_load False]
    usage_error_by_argument_count [of "[''prog'', ''a.json'', ''b.json'']" ex_glob ex_load False "''prog''"]
  by simp

text \<open>
  Claim C1 as the specification states it fails in both directions. One pattern that
  matches two tables is one argument, and the run ends with the usage error; two
  patterns that match nothing are two arguments, and the run returns normally with an
  empty report.
\<close>

theorem usage_error_by_resolved_tables_counterexample:
  "length (concat (map ex_glob [''*.json''])) = 2 \<and>
   main ex_glob ex_load False [''prog'', ''*.json''] = ([], SysExit (usage_msg ''prog'')) \<and>
   length (concat (map ex_glob [''x.json'', ''y.json''])) = 0 \<and>
   main ex_glob ex_load False [''prog'', ''x.json'', ''y.json''] = ([], Returned)"
  by (simp add: main_def ex_glob_def sort_tables_def)

subsection \<open>Renames\<close>

text \<open>
  Claim C2. For two consecutive tables, a number that occurs both in the removed items
  and in the added items has different names there, and it is reported as one rename:
  \<^verbatim>\<open>diff\<close> has exactly one entry for the number, with the rename symbol and the text
  \<open>old -> new\<close>. The renamed count is the number of such numbers (at least one then),
  and the added and the removed count are the sizes of the two sets less the renamed
  count. For the tables with the single syscalls \<open>(5, foo)\<close> and \<open>(5, bar)\<close> the
  report is the count line with \<open>(1 renamed)\<close> and the line \<open>R 5 (0x5) foo -> bar\<close>,
  with no added and no removed count.
\<close>

theorem rename_reclassified:
  fixes prev cur :: "(int \<times> string) list"
  defines "removed \<equiv> items_minus (dict_of prev) (dict_of cur)"
    and "added \<equiv> items_minus (dict_of cur) (dict_of prev)"
  assumes run: "classify c removed added = (n_added, n_removed, n_renamed, d)"
    and rem: "(num, old) \<in> set removed"
    and add: "(num, new) \<in> set added"
  shows "old \<noteq> new \<and>
         (num, RENAME c, old @ '' -> '' @ new) \<in> set (sort d) \<and>
         (\<forall>e \<in> set (sort d). fst e = num \<longrightarrow> e = (num, RENAME c, old @ '' -> '' @ new)) \<and>
         n_renamed = int (card (fst ` set added \<inter> fst ` set removed)) \<and>
         1 \<le> n_renamed \<and>
         n_added = int (card (set added)) - n_renamed \<and>
         n_removed = int (card (set removed)) - n_renamed \<and>
         table_report (term_colors False) ''v5.11'' (Some (dict_of [(5, ''foo'')]))
           (dict_of [(5, ''bar'')]) =
           ''v5.11: 1 syscalls (1 renamed)'' @ newline @
           ''       R 5 (0x5) foo -> bar'' @ newline"
proof -
  have dr: "distinct (map fst removed)" and da: "distinct (map fst added)"
    by (simp_all add: removed_def added_def items_minus_distinct dict_of_distinct)
  then have dr': "distinct removed" and da': "distinct added"
    by (simp_all add: distinct_map)
  let ?R = "fst ` set removed" and ?A = "fst ` set added"
  from classify_result [OF dr da, of c] run
  have na: "n_added = int (length added) - int (card (?R \<inter> ?A))"
    and nr: "n_removed = int (length removed) - int (card (?R \<inter> ?A))"
    and nn: "n_renamed = int (card (?R \<inter> ?A))"
    and dd: "distinct (map fst d)"
    and mp: "\<And>k. map_of d k = diff_entry c (map_of removed) (map_of added) k"
    by auto
  from rem add have neq: "old \<noteq> new"
    by (auto simp: removed_def added_def items_minus_set)
  from rem dr have mr: "map_of removed num = Some old" by simp
  from add da have ma: "map_of added num = Some new" by simp
  have entry: "map_of d num = Some (RENAME c, old @ '' -> '' @ new)"
    by (simp add: mp diff_entry_def mr ma)
  then have mem: "(num, RENAME c, old @ '' -> '' @ new) \<in> set (sort d)"
    by (simp add: map_of_SomeD)
  have uniq: "\<forall>e \<in> set (sort d). fst e = num \<longrightarrow> e = (num, RENAME c, old @ '' -> '' @ new)"
  proof (intro ballI impI)
    fix e assume "e \<in> set (sort d)" and "fst e = num"
    obtain k v where kv: "e = (k, v)" by (cases e)
    from \<open>e \<in> set (sort d)\<close> \<open>fst e = num\<close> have "(num, snd e) \<in> set d"
      by (simp add: kv)
    with dd have "map_of d num = Some (snd e)" by simp
    with entry have "snd e = (RENAME c, old @ '' -> '' @ new)" by simp
    with \<open>fst e = num\<close> show "e = (num, RENAME c, old @ '' -> '' @ new)"
      by (cases e) simp
  qed
  have "num \<in> ?R \<inter> ?A" using rem add by force
  then have "card (?R \<inter> ?A) \<noteq> 0" by auto
  then have one: "1 \<le> n_renamed" using nn by linarith
  have ex: "table_report (term_colors False) ''v5.11'' (Some (dict_of [(5, ''foo'')]))
           (dict_of [(5, ''bar'')]) =
           ''v5.11: 1 syscalls (1 renamed)'' @ newline @
           ''       R 5 (0x5) foo -> bar'' @ newline"
    by code_simp
  have c_ren: "n_renamed = int (card (fst ` set added \<inter> fst ` set removed))"
    using nn by (simp add: Int_commute)
  have c_add: "n_added = int (card (set added)) - n_renamed"
    using na nn da' by (simp add: distinct_card)
  have c_rem: "n_removed = int (card (set removed)) - n_renamed"
    using nr nn dr' by (simp add: distinct_card)
  show ?thesis
    apply (intro conjI)
           apply (rule neq)
          apply (rule mem)
         apply (rule uniq)
        apply (rule c_ren)
       apply (rule one)
      apply (rule c_add)
     apply (rule c_rem)
    apply (rule ex)
    done
qed

theorem rename_reclassified_witness:
  "classify (term_colors False)
     (items_minus (dict_of ex_old) (dict_of ex_new))
     (items_minus (dict_of ex_new) (dict_of ex_old)) =
     (1, 1, 1, [(5, ''R'', ''foo -> bar''), (7, ''-'', ''old''), (8, ''+'', ''new'')]) \<and>
   (5::int, ''foo'') \<in> set (items_minus (dict_of ex_old) (dict_of ex_new)) \<and>
   (5::int, ''bar'') \<in> set (items_minus (dict_of ex_new) (dict_of ex_old)) \<and>
   (5::int, RENAME (term_colors False), ''foo'' @ '' -> '' @ ''bar'') \<in>
     set (sort [(5, ''R'', ''foo -> bar''), (7, ''-'', ''old''), (8, ''+'', ''new'')])"
proof -
  have h: "classify (term_colors False)
     (items_minus (dict_of ex_old) (dict_of ex_new))
     (items_minus (dict_of ex_new) (dict_of ex_old)) =
     (1, 1, 1, [(5, ''R'', ''foo -> bar''), (7, ''-'', ''old''), (8, ''+'', ''new'')])"
    by code_simp
  have r: "(5::int, ''foo'') \<in> set (items_minus (dict_of ex_old) (dict_of ex_new))"
    by code_simp
  have a: "(5::int, ''bar'') \<in> set (items_minus (dict_of ex_new) (dict_of ex_old))"
    by code_simp
  have "(5::int, RENAME (term_colors False), ''foo'' @ '' -> '' @ ''bar'') \<in>
     set (sort [(5, ''R'', ''foo -> bar''), (7, ''-'', ''old''), (8, ''+'', ''new'')])"
    by (rule rename_reclassified [OF h r a, THEN conjunct2, THEN conjunct1])
  with h r a show ?thesis by (intro conjI)
qed

subsection \<open>The counts\<close>



subsection \<open>The added and the removed set\<close>

text \<open>
  Claim C6. For two consecutive tables, the added items are exactly the pairs of number
  and name of the current table's mapping from numbers to names (the last record of a
  number gives its name) that are no pairs of the previous table's mapping, and the
  removed items are exactly the pairs of the previous mapping that are no pairs of the
  current one; pairs are compared as pairs. Neither list repeats a pair. For the arrays
  read, write and read, write, open the counts are 1 added, 0 removed, 0 renamed, the
  only entry is number 2 with the symbol for added, and the report is the count line
  with \<open>(+1)\<close> and the line \<open>+ 2 (0x2) open\<close>.
\<close>

theorem added_removed_sets:
  fixes prev cur :: "(int \<times> string) list"
  shows "set (items_minus (dict_of cur) (dict_of prev)) =
           {(n, nm). map_of (rev cur) n = Some nm} - {(n, nm). map_of (rev prev) n = Some nm} \<and>
         set (items_minus (dict_of prev) (dict_of cur)) =
           {(n, nm). map_of (rev prev) n = Some nm} - {(n, nm). map_of (rev cur) n = Some nm} \<and>
         distinct (items_minus (dict_of cur) (dict_of prev)) \<and>
         distinct (items_minus (dict_of prev) (dict_of cur)) \<and>
         classify (term_colors False)
           (items_minus (dict_of [(0, ''read''), (1, ''write'')])
              (dict_of [(0, ''read''), (1, ''write''), (2, ''open'')]))
           (items_minus (dict_of [(0, ''read''), (1, ''write''), (2, ''open'')])
              (dict_of [(0, ''read''), (1, ''write'')])) =
           (1, 0, 0, [(2, ''+'', ''open'')]) \<and>
         table_report (term_colors False) ''v5.11''
           (Some (dict_of [(0, ''read''), (1, ''write'')]))
           (dict_of [(0, ''read''), (1, ''write''), (2, ''open'')]) =
           ''v5.11: 3 syscalls (+1)'' @ newline @ ''       + 2 (0x2) open'' @ newline"
proof -
  have a: "set (items_minus (dict_of cur) (dict_of prev)) =
           {(n, nm). map_of (rev cur) n = Some nm} - {(n, nm). map_of (rev prev) n = Some nm}"
    by (simp only: items_minus_set dict_of_set)
  have r: "set (items_minus (dict_of prev) (dict_of cur)) =
           {(n, nm). map_of (rev prev) n = Some nm} - {(n, nm). map_of (rev cur) n = Some nm}"
    by (simp only: items_minus_set dict_of_set)
  have da: "distinct (items_minus (dict_of cur) (dict_of prev))"
    using items_minus_distinct [OF dict_of_distinct, of cur "dict_of prev"]
    by (simp add: distinct_map)
  have dr: "distinct (items_minus (dict_of prev) (dict_of cur))"
    using items_minus_distinct [OF dict_of_distinct, of prev "dict_of cur"]
    by (simp add: distinct_map)
  have ex1: "classify (term_colors False)
           (items_minus (dict_of [(0, ''read''), (1, ''write'')])
              (dict_of [(0, ''read''), (1, ''write''), (2, ''open'')]))
           (items_minus (dict_of [(0, ''read''), (1, ''write''), (2, ''open'')])
              (dict_of [(0, ''read''), (1, ''write'')])) =
           (1, 0, 0, [(2::int, ''+'', ''open'')])"
    by code_simp
  have ex2: "table_report (term_colors False) ''v5.11''
           (Some (dict_of [(0, ''read''), (1, ''write'')]))
           (dict_of [(0, ''read''), (1, ''write''), (2, ''open'')]) =
           ''v5.11: 3 syscalls (+1)'' @ newline @ ''       + 2 (0x2) open'' @ newline"
    by code_simp
  show ?thesis
    apply (intro conjI)
         apply (rule a)
        apply (rule r)
       apply (rule da)
      apply (rule dr)
     apply (rule ex1)
    apply (rule ex2)
    done
qed

subsection \<open>The order of the diff lines\<close>



subsection \<open>Duplicate version tags\<close>

text \<open>
  Claim C4, as amended. If two loaded tables share a version tag, the run ends with
  status 1 and nothing on standard output. When every loaded tag is one that
  \<^verbatim>\<open>tag_to_tuple\<close> accepts, it ends with the diagnostic of the duplicate version.
  Otherwise it ends, while the tables are sorted, with the exception that
  \<^verbatim>\<open>tag_to_tuple\<close> raises for the first loaded table whose tag it refuses.
\<close>

theorem duplicate_versions:
  assumes len: "3 \<le> length argv"
    and loaded: "load_all load (concat (map glob (tl argv))) = Inr tables"
    and dup: "\<not> distinct (map version tables)"
  shows "fst (main glob load tty argv) = [] \<and>
         exit_status (snd (main glob load tty argv)) = 1 \<and>
         ((\<forall>t\<in>set tables. well_formed_tag (version t)) \<longrightarrow>
            main glob load tty argv = ([], SysExit duplicate_msg)) \<and>
         (\<forall>pre t post e.
            tables = pre @ t # post \<and> (\<forall>u\<in>set pre. well_formed_tag (version u)) \<and>
            tag_to_tuple (version t) = Inl e \<longrightarrow>
            main glob load tty argv = ([], Raised e))"
proof -
  have refused: "main glob load tty argv = ([], Raised e)"
    if "tables = pre @ t # post \<and> (\<forall>u\<in>set pre. well_formed_tag (version u)) \<and>
        tag_to_tuple (version t) = Inl e" for pre t post e
  proof -
    from that have "sort_keys tables = Inl e"
      by (simp add: sort_keys_first_error)
    then have "sort_tables tables = Inl e"
      by (simp add: sort_tables_def)
    then show ?thesis
      by (simp add: main_loaded [OF len loaded])
  qed
  have every: "\<forall>pre t post e.
            tables = pre @ t # post \<and> (\<forall>u\<in>set pre. well_formed_tag (version u)) \<and>
            tag_to_tuple (version t) = Inl e \<longrightarrow>
            main glob load tty argv = ([], Raised e)"
    by (intro allI impI) (rule refused)
  have first: "fst (main glob load tty argv) = [] \<and>
         exit_status (snd (main glob load tty argv)) = 1 \<and>
         ((\<forall>t\<in>set tables. well_formed_tag (version t)) \<longrightarrow>
            main glob load tty argv = ([], SysExit duplicate_msg))"
  proof (cases "sort_tables tables")
    case (Inl e)
    then have m: "main glob load tty argv = ([], Raised e)"
      by (simp add: main_loaded [OF len loaded])
    from sort_tables_Inl [OF Inl] have "\<not> (\<forall>t\<in>set tables. well_formed_tag (version t))"
      by blast
    with m show ?thesis by simp
  next
    case (Inr ss)
    with dup have "main glob load tty argv = ([], SysExit duplicate_msg)"
      by (simp add: main_loaded [OF len loaded])
    then show ?thesis by simp
  qed
  from first every show ?thesis by simp
qed

theorem duplicate_versions_witness:
  "main self_glob same_tag_load False [''prog'', ''a.json'', ''b.json''] =
     ([], SysExit duplicate_msg) \<and>
   main self_glob untagged_load False [''prog'', ''a.json'', ''b.json''] =
     ([], Raised AssertionError)"
proof -
  let ?t = "ex_table ''v5.11'' [(0, ''read'')]"
  let ?u = "ex_table ''5.11'' [(0, ''read'')]"
  have l: "3 \<le> length [''prog'', ''a.json'', ''b.json'']" by simp
  have ld: "load_all same_tag_load (concat (map self_glob (tl [''prog'', ''a.json'', ''b.json'']))) =
            Inr [?t, ?t]"
    by (simp add: self_glob_def same_tag_load_def)
  have dp: "\<not> distinct (map version [?t, ?t])" by simp
  have wf: "\<forall>t\<in>set [?t, ?t]. well_formed_tag (version t)" by code_simp
  have ld': "load_all untagged_load (concat (map self_glob (tl [''prog'', ''a.json'', ''b.json'']))) =
            Inr [?u, ?u]"
    by (simp add: self_glob_def untagged_load_def)
  have dp': "\<not> distinct (map version [?u, ?u])" by simp
  have bad: "[?u, ?u] = [] @ ?u # [?u] \<and> (\<forall>u\<in>set []. well_formed_tag (version u)) \<and>
             tag_to_tuple (version ?u) = Inl AssertionError"
    by code_simp
  note a = duplicate_versions [OF l ld dp, of False, THEN conjunct2, THEN conjunct2, THEN conjunct1]
  note b = duplicate_versions [OF l ld' dp', of False, THEN conjunct2, THEN conjunct2,
      THEN conjunct2, THEN spec, THEN spec, THEN spec, THEN spec]
  show ?thesis
    apply (rule conjI)
     apply (rule a [THEN mp, OF wf])
    apply (rule b [THEN mp, OF bad])
    done
qed

text \<open>
  Claim C4 as the specification states it fails when a tag is not accepted: the tables
  are sorted before the tags are compared, so two loaded tables that share the tag
  \<^verbatim>\<open>5.11\<close> end the run with the \<^verbatim>\<open>AssertionError\<close> of \<^verbatim>\<open>tag_to_tuple\<close>, not with the
  diagnostic of the duplicate version.
\<close>

theorem duplicate_versions_counterexample:
  "load_all untagged_load (concat (map self_glob (tl [''prog'', ''a.json'', ''b.json'']))) =
     Inr [ex_table ''5.11'' [(0, ''read'')], ex_table ''5.11'' [(0, ''read'')]] \<and>
   main self_glob untagged_load False [''prog'', ''a.json'', ''b.json''] =
     ([], Raised AssertionError)"
  by code_simp

subsection \<open>Incompatible architectures\<close>

text \<open>
  Claim C5. Let the sorted tables be \<open>pre\<close>, then \<open>t\<close>, then \<open>post\<close>, where the tables of
  \<open>pre\<close> (at least one) have the same arch/bits/abi descriptor and the descriptor of
  \<open>t\<close> differs from it. Then the run ends with status 1 and the diagnostic of the
  incompatible architectures, naming the two descriptors; standard output holds exactly
  what the loop prints for the tables of \<open>pre\<close> alone, so the lines of the earlier
  tables remain, and nothing is printed for \<open>t\<close> or for the tables of \<open>post\<close>.
\<close>

theorem incompatible_architecture:
  assumes len: "3 \<le> length argv"
    and loaded: "load_all load (concat (map glob (tl argv))) = Inr tables"
    and sorted: "sort_tables tables = Inr (pre @ t # post)"
    and uniq: "distinct (map version tables)"
    and ne: "pre \<noteq> []"
    and same: "\<forall>u\<in>set pre. arch_bits_abi u = arch_bits_abi (last pre)"
    and differs: "arch_bits_abi t \<noteq> arch_bits_abi (last pre)"
  shows "main glob load tty argv =
           (reports (term_colors tty) None pre,
            SysExit (incompatible_msg (arch_bits_abi (last pre)) (arch_bits_abi t))) \<and>
         report_loop (term_colors tty) None None pre =
           (reports (term_colors tty) None pre, Returned) \<and>
         exit_status (snd (main glob load tty argv)) = 1"
proof -
  have m: "main glob load tty argv = report_loop (term_colors tty) None None (pre @ t # post)"
    using sorted uniq by (simp add: main_loaded [OF len loaded])
  have r: "report_loop (term_colors tty) None None (pre @ t # post) =
           (reports (term_colors tty) None pre,
            SysExit (incompatible_msg (arch_bits_abi (last pre)) (arch_bits_abi t)))"
    using same _ _ differs by (rule report_loop_refused) (simp_all add: ne)
  have p: "report_loop (term_colors tty) None None pre =
           (reports (term_colors tty) None pre, Returned)"
    using same by (rule report_loop_compatible) simp
  show ?thesis
    apply (intro conjI)
      apply (simp only: m r)
     apply (rule p)
    apply (simp add: m r del: report_loop.simps)
    done
qed

theorem incompatible_architecture_witness:
  "main self_glob mixed_load False [''prog'', ''a.json'', ''b.json''] =
     (''v5.10: 1 syscalls'' @ newline,
      SysExit (incompatible_msg ''x86/64/x64'' ''arm64/64/x64''))"
proof -
  let ?a = "ex_table ''v5.10'' [(0, ''read'')]"
  let ?b = "(ex_table ''v5.11'' [(0, ''read'')])\<lparr>arch_name := ''arm64''\<rparr>"
  have l: "3 \<le> length [''prog'', ''a.json'', ''b.json'']" by simp
  have ld: "load_all mixed_load (concat (map self_glob (tl [''prog'', ''a.json'', ''b.json'']))) =
            Inr [?a, ?b]"
    by (simp add: self_glob_def mixed_load_def)
  have st: "sort_tables [?a, ?b] = Inr ([?a] @ ?b # [])" by code_simp
  have u: "distinct (map version [?a, ?b])" by code_simp
  have ne: "[?a] \<noteq> []" by simp
  have sm: "\<forall>u\<in>set [?a]. arch_bits_abi u = arch_bits_abi (last [?a])" by simp
  have df: "arch_bits_abi ?b \<noteq> arch_bits_abi (last [?a])" by code_simp
  have e1: "reports (term_colors False) None [?a] = ''v5.10: 1 syscalls'' @ newline"
    by code_simp
  have e2: "arch_bits_abi (last [?a]) = ''x86/64/x64''" by code_simp
  have e3: "arch_bits_abi ?b = ''arm64/64/x64''" by code_simp
  from incompatible_architecture [OF l ld st u ne sm df, of False, THEN conjunct1]
  show ?thesis by (simp only: e1 e2 e3)
qed

subsection \<open>The order of the versions\<close>



subsection \<open>The line of a table\<close>

text \<open>
  Claim C7, as amended. At every table that the loop reports (the first one, or one whose
  architecture descriptor equals the previous one), the output of the round starts with
  the version tag, filled with spaces after the text up to five characters and not cut
  when it is longer, then a colon and a space, the number of different syscall numbers
  of the table, and the word syscalls. Records with the same number count once, and the
  name kept for a number is the name of its last record.
\<close>

theorem count_line_of_table:
  assumes ok: "a = None \<or> a = Some (arch_bits_abi t)"
  shows "(\<exists>rest. fst (report_loop c a sc (t # ts)) =
            version t @ replicate (5 - length (version t)) CHR '' '' @ '': '' @
            str_int (int (card (fst ` set (syscalls t)))) @ '' syscalls'' @ rest) \<and>
         (\<forall>xs n nm ys. syscalls t = xs @ (n, nm) # ys \<and> n \<notin> fst ` set ys \<longrightarrow>
            map_of (dict_of (syscalls t)) n = Some nm)"
proof (rule conjI)
  from table_report_starts [of c "version t" sc "syscalls t"] obtain rest where
    "table_report c (version t) sc (dict_of (syscalls t)) =
       version t @ replicate (5 - length (version t)) CHR '' '' @ '': '' @
       str_int (int (card (fst ` set (syscalls t)))) @ '' syscalls'' @ rest" ..
  then have "fst (report_loop c a sc (t # ts)) =
       version t @ replicate (5 - length (version t)) CHR '' '' @ '': '' @
       str_int (int (card (fst ` set (syscalls t)))) @ '' syscalls'' @
       (rest @ fst (report_loop c (Some (arch_bits_abi t)) (Some (dict_of (syscalls t))) ts))"
    by (simp add: report_loop_step [OF ok] del: report_loop.simps)
  then show "\<exists>rest. fst (report_loop c a sc (t # ts)) =
            version t @ replicate (5 - length (version t)) CHR '' '' @ '': '' @
            str_int (int (card (fst ` set (syscalls t)))) @ '' syscalls'' @ rest" ..
next
  show "\<forall>xs n nm ys. syscalls t = xs @ (n, nm) # ys \<and> n \<notin> fst ` set ys \<longrightarrow>
            map_of (dict_of (syscalls t)) n = Some nm"
  proof (intro allI impI)
    fix xs n nm ys
    assume "syscalls t = xs @ (n, nm) # ys \<and> n \<notin> fst ` set ys"
    then show "map_of (dict_of (syscalls t)) n = Some nm"
      by (simp add: dict_of_last_wins)
  qed
qed

text \<open>
  At the table tagged \<^verbatim>\<open>v6.0\<close> whose records are 1 exit, 2 fork, 1 quit: the line starts
  with the tag and one space after it, counts two syscalls, and number 1 is named quit.
\<close>

theorem count_line_of_table_witness:
  "(\<exists>rest. fst (report_loop (term_colors False) None None [ex_table ''v6.0'' ex_dup]) =
      ''v6.0'' @ replicate (5 - length ''v6.0'') CHR '' '' @ '': '' @
      str_int (int (card (fst ` set ex_dup))) @ '' syscalls'' @ rest) \<and>
   map_of (dict_of ex_dup) 1 = Some ''quit''"
proof -
  have ok: "None = None \<or> None = Some (arch_bits_abi (ex_table ''v6.0'' ex_dup))"
    by simp
  have sp: "syscalls (ex_table ''v6.0'' ex_dup) = [(1, ''exit''), (2, ''fork'')] @ (1, ''quit'') # [] \<and>
            1 \<notin> fst ` set ([] :: (int \<times> string) list)"
    by (simp add: ex_table_def ex_dup_def)
  note t = count_line_of_table [OF ok, of "term_colors False" None "[]"]
  have a: "\<exists>rest. fst (report_loop (term_colors False) None None [ex_table ''v6.0'' ex_dup]) =
      ''v6.0'' @ replicate (5 - length ''v6.0'') CHR '' '' @ '': '' @
      str_int (int (card (fst ` set ex_dup))) @ '' syscalls'' @ rest"
    using t [THEN conjunct1] by (simp add: ex_table_def)
  have "map_of (dict_of (syscalls (ex_table ''v6.0'' ex_dup))) 1 = Some ''quit''"
    by (rule t [THEN conjunct2, THEN spec, THEN spec, THEN spec, THEN spec, THEN mp, OF sp])
  then have b: "map_of (dict_of ex_dup) 1 = Some ''quit''"
    by (simp add: ex_table_def)
  from a b show ?thesis by (rule conjI)
qed

text \<open>
  Claim C7 as the specification states it fails for the side of the padding: the tag
  \<^verbatim>\<open>v6.0\<close> is printed as \<^verbatim>\<open>v6.0\<close> followed by a space, while the tag padded on the left
  to five characters is a space followed by \<^verbatim>\<open>v6.0\<close>.
\<close>

theorem left_padded_counterexample:
  "fst (report_loop (term_colors False) None None [ex_table ''v6.0'' ex_dup]) =
     ''v6.0 : 2 syscalls'' @ newline \<and>
   left_padded 5 ''v6.0'' = '' v6.0'' \<and>
   take 5 (fst (report_loop (term_colors False) None None [ex_table ''v6.0'' ex_dup])) \<noteq>
     left_padded 5 ''v6.0''"
  by code_simp

subsection \<open>Output that is not a terminal\<close>

text \<open>
  Claim C8, as amended. When standard output is not a terminal, the four colour codes
  are the empty string, and the text on standard output contains no escape character
  provided no version tag and no syscall name of a loaded table contains one: the
  program adds none of its own.
\<close>

theorem no_escape_sequences:
  assumes clean: "\<forall>tables. load_all load (concat (map glob (tl argv))) = Inr tables \<longrightarrow>
      (\<forall>t\<in>set tables. ESC \<notin> set (version t) \<and> (\<forall>p\<in>set (syscalls t). ESC \<notin> set (snd p)))"
  shows "RED (term_colors False) = [] \<and> GREEN (term_colors False) = [] \<and>
         BLUE (term_colors False) = [] \<and> RESET (term_colors False) = [] \<and>
         ESC \<notin> set (fst (main glob load False argv))"
proof -
  have out: "ESC \<notin> set (fst (main glob load False argv))"
  proof -
    from main_output_cases [of glob load False argv]
    consider "fst (main glob load False argv) = []"
      | tables where "load_all load (concat (map glob (tl argv))) = Inr tables"
          "main glob load False argv =
             report_loop (term_colors False) None None (sort_key version_key tables)"
      by blast
    then show ?thesis
    proof cases
      case 1
      then show ?thesis by simp
    next
      case (2 tables)
      from clean 2(1)
      have "\<forall>t\<in>set (sort_key version_key tables).
              no_escape (version t) \<and> (\<forall>p\<in>set (syscalls t). no_escape (snd p))"
        by (simp add: no_escape_def)
      then have "no_escape (fst (report_loop (term_colors False) None None
                   (sort_key version_key tables)))"
        by (rule no_escape_report_loop) simp
      then show ?thesis
        by (simp add: 2(2) no_escape_def)
    qed
  qed
  then show ?thesis by simp
qed

text \<open>
  The two example tables, given by name, without a terminal: no escape character in the
  output.
\<close>

theorem no_escape_sequences_witness:
  "ESC \<notin> set (fst (main ex_glob ex_load False [''prog'', ''a.json'', ''b.json'']))"
proof -
  have "load_all ex_load (concat (map ex_glob (tl [''prog'', ''a.json'', ''b.json'']))) =
        Inr [ex_table ''v5.10'' [(0, ''read''), (1, ''write'')],
             ex_table ''v5.11'' [(0, ''read''), (1, ''write''), (2, ''open'')]]"
    by (simp add: ex_glob_def ex_load_def)
  then have clean: "\<forall>tables.
      load_all ex_load (concat (map ex_glob (tl [''prog'', ''a.json'', ''b.json'']))) = Inr tables \<longrightarrow>
      (\<forall>t\<in>set tables. ESC \<notin> set (version t) \<and> (\<forall>p\<in>set (syscalls t). ESC \<notin> set (snd p)))"
    by (simp add: ex_table_def ESC_def)
  from no_escape_sequences [OF clean] show ?thesis by simp
qed

text \<open>
  Claim C8 as the specification states it fails for some inputs: names are printed as
  they are loaded, so a table that names syscall 0 with a text starting with the colour
  code for red puts that escape sequence on standard output, terminal or not.
\<close>

theorem no_escape_sequences_counterexample:
  "main self_glob esc_load False [''prog'', ''a.json'', ''b.json''] =
     (''v5.10: 1 syscalls'' @ newline @ ''v5.11: 1 syscalls (1 renamed)'' @ newline @
      ''       R 0 (0x0) read -> '' @ [ESC] @ ''[91mread'' @ newline, Returned) \<and>
   ESC \<in> set (fst (main self_glob esc_load False [''prog'', ''a.json'', ''b.json'']))"
proof -
  have m: "main self_glob esc_load False [''prog'', ''a.json'', ''b.json''] =
     (''v5.10: 1 syscalls'' @ newline @ ''v5.11: 1 syscalls (1 renamed)'' @ newline @
      ''       R 0 (0x0) read -> '' @ [ESC] @ ''[91mread'' @ newline, Returned)"
    by code_simp
  have "ESC \<in> set (fst (main self_glob esc_load False [''prog'', ''a.json'', ''b.json'']))"
    unfolding m by simp
  with m show ?thesis by (rule conjI)
qed

end
